theory Spec2Isabelle
  imports Complex_Main
begin

section \<open>what\_if.py: missing the best and worst trading days\<close>

text \<open>
  A shallow embedding of \<^verbatim>\<open>what_if.py\<close>. The \<^verbatim>\<open>csv.DictReader\<close> the functions
  consume is a list of the rows still to be read: \<^verbatim>\<open>next\<close> takes the head and raises
  StopIteration on the empty list, a \<^verbatim>\<open>for\<close> loop runs to the end of the list.

  A data row is taken after \<^verbatim>\<open>float()\<close> has read its cells, and prices are real
  numbers: rounding of Python's floats is not modelled. What is kept of float arithmetic
  is that dividing by zero raises ZeroDivisionError.
\<close>

datatype error = StopIteration | ZeroDivisionError | ValueError | AttributeError | IndexError

subsection \<open>Header validation\<close>

text \<open>\<^verbatim>\<open>CSV_FIELD_NAMES\<close>, line 9.\<close>

definition CSV_FIELD_NAMES :: "string list" where
  "CSV_FIELD_NAMES =
     [''date'', ''open'', ''high'', ''low'', ''close'', ''adj close'', ''volume'']"

text \<open>
  A value of a row dictionary of \<^verbatim>\<open>csv.DictReader\<close>: a cell of the line, the
  \<^verbatim>\<open>restval\<close> None of a field the line is too short for, or the list of surplus
  cells stored under the \<^verbatim>\<open>restkey\<close> None. A key is a field name or that None.
\<close>

datatype cell = Str string | NoneVal | RestList "string list"

type_synonym header_row = "(string option \<times> cell) list"

text \<open>
  \<^verbatim>\<open>DictReader.__next__\<close> with \<^verbatim>\<open>fieldnames\<close> given, on a non-empty line:
  \<^verbatim>\<open>d = dict(zip(fieldnames, row))\<close>, then the surplus cells under \<^verbatim>\<open>restkey\<close>
  when the line is longer, or \<^verbatim>\<open>restval\<close> for the fields left when it is shorter.
  The list is the dictionary's items in insertion order.
\<close>

definition dict_reader_row :: "string list \<Rightarrow> string list \<Rightarrow> header_row" where
  "dict_reader_row fieldnames row =
     (let lf = length fieldnames; lr = length row;
          d = zip (map Some fieldnames) (map Str row)
      in if lf < lr then d @ [(None, RestList (drop lf row))]
         else if lf > lr then d @ map (\<lambda>key. (Some key, NoneVal)) (drop lr fieldnames)
         else d)"

text \<open>\<^verbatim>\<open>str.lower\<close> on ASCII text.\<close>

definition lower_char :: "char \<Rightarrow> char" where
  "lower_char c =
     (case map_of (zip ''ABCDEFGHIJKLMNOPQRSTUVWXYZ'' ''abcdefghijklmnopqrstuvwxyz'') c of
        Some l \<Rightarrow> l
      | None \<Rightarrow> c)"

definition lower :: "string \<Rightarrow> string" where
  "lower s = map lower_char s"

text \<open>
  \<^verbatim>\<open>validate_header\<close>, lines 12-19. \<^verbatim>\<open>actual_name.lower()\<close> is evaluated first: on
  None or on a list it raises AttributeError. The \<^verbatim>\<open>raise ValueError\<close> of line 16 is
  the schema error.
\<close>

fun validate_header :: "header_row \<Rightarrow> error + unit" where
  "validate_header [] = Inr ()"
| "validate_header ((expected_name, actual_name) # items) =
     (case actual_name of
        Str s \<Rightarrow>
          (let lower_actual_name = lower s
           in if expected_name \<noteq> Some lower_actual_name then Inl ValueError
              else validate_header items)
      | NoneVal \<Rightarrow> Inl AttributeError
      | RestList _ \<Rightarrow> Inl AttributeError)"

subsection \<open>Selecting the best or worst days\<close>

text \<open>A data row: the cells \<^verbatim>\<open>day["date"]\<close>, \<^verbatim>\<open>float(day["open"])\<close>, \<^verbatim>\<open>float(day["close"])\<close>.\<close>

record day =
  day_date :: string
  day_open :: real
  day_close :: real

text \<open>\<^verbatim>\<open>DayPerf = namedtuple("DayPerf", ["date", "change_percentage"])\<close>, line 22.\<close>

datatype DayPerf = DayPerf (date: string) (change_percentage: real)

text \<open>
  \<^verbatim>\<open>chosen_days.sort(key=lambda x: x[1], reverse=find_best)\<close>, line 65. Python's sort is
  stable, and with \<^verbatim>\<open>reverse\<close> entries of equal key still keep their order: that is
  the stable sort by the negated key.
\<close>

definition sort_days :: "bool \<Rightarrow> DayPerf list \<Rightarrow> DayPerf list" where
  "sort_days find_best chosen_days =
     (if find_best then sort_key (\<lambda>x. - change_percentage x) chosen_days
      else sort_key change_percentage chosen_days)"

text \<open>
  Lines 56-66, the body of the third loop once the day's change is known: skip the day,
  or append it, sort and pop. \<^verbatim>\<open>chosen_days[-1]\<close> raises IndexError on an empty list.
\<close>

definition offer_day :: "bool \<Rightarrow> DayPerf list \<Rightarrow> string \<Rightarrow> real \<Rightarrow> error + DayPerf list" where
  "offer_day find_best chosen_days d change =
     (if chosen_days = [] then Inl IndexError
      else if (if find_best then change < change_percentage (last chosen_days)
               else change > change_percentage (last chosen_days))
      then Inr chosen_days
      else Inr (butlast (sort_days find_best (chosen_days @ [DayPerf d change]))))"

text \<open>
  Lines 41-46: \<^verbatim>\<open>for _ in range(n - 1)\<close>, each round reading one more row. The result
  is the rows left in the reader, \<^verbatim>\<open>last_closing_price\<close> and \<^verbatim>\<open>chosen_days\<close>.
\<close>

fun fill_days :: "nat \<Rightarrow> day list \<Rightarrow> real \<Rightarrow> DayPerf list
    \<Rightarrow> error + (day list \<times> real \<times> DayPerf list)" where
  "fill_days 0 reader last_closing_price chosen_days =
     Inr (reader, last_closing_price, chosen_days)"
| "fill_days (Suc k) [] last_closing_price chosen_days = Inl StopIteration"
| "fill_days (Suc k) (d # reader) last_closing_price chosen_days =
     (if last_closing_price = 0 then Inl ZeroDivisionError
      else fill_days k reader (day_close d)
             (chosen_days @
              [DayPerf (day_date d) ((day_close d - last_closing_price) / last_closing_price)]))"

text \<open>Lines 49-66: \<^verbatim>\<open>for day in data_dict_reader\<close>.\<close>

fun scan_days :: "bool \<Rightarrow> day list \<Rightarrow> real \<Rightarrow> DayPerf list \<Rightarrow> error + DayPerf list" where
  "scan_days find_best [] last_closing_price chosen_days = Inr chosen_days"
| "scan_days find_best (d # reader) last_closing_price chosen_days =
     (if last_closing_price = 0 then Inl ZeroDivisionError
      else (case offer_day find_best chosen_days (day_date d)
                   ((day_close d - last_closing_price) / last_closing_price) of
              Inl e \<Rightarrow> Inl e
            | Inr chosen_days' \<Rightarrow> scan_days find_best reader (day_close d) chosen_days'))"

text \<open>
  \<^verbatim>\<open>find_days\<close>, lines 25-68. After the first day \<^verbatim>\<open>last_closing_price\<close> is that
  day's open (line 38).
\<close>

definition find_days :: "day list \<Rightarrow> int \<Rightarrow> bool \<Rightarrow> error + DayPerf list" where
  "find_days data_dict_reader n find_best =
     (if n = 0 then Inr []
      else case data_dict_reader of
             [] \<Rightarrow> Inl StopIteration
           | first_day # reader \<Rightarrow>
               (if day_open first_day = 0 then Inl ZeroDivisionError
                else (case fill_days (nat (n - 1)) reader (day_open first_day)
                             [DayPerf (day_date first_day)
                                ((day_close first_day - day_open first_day) / day_open first_day)] of
                        Inl e \<Rightarrow> Inl e
                      | Inr (reader', last_closing_price, chosen_days) \<Rightarrow>
                          scan_days find_best reader' last_closing_price chosen_days)))"

subsection \<open>Replaying the series without the missed days\<close>

text \<open>
  Lines 81-94, the loop of \<^verbatim>\<open>perf_if_missing_days\<close> over the rows after the first.
  Its state is \<^verbatim>\<open>value\<close>, \<^verbatim>\<open>missed_yesterday\<close> and \<^verbatim>\<open>last_close_price\<close>; it returns
  the final \<^verbatim>\<open>value\<close> and \<^verbatim>\<open>last_close_price\<close>.
\<close>

fun replay_days :: "string set \<Rightarrow> day list \<Rightarrow> real \<Rightarrow> bool \<Rightarrow> real \<Rightarrow> real \<times> real" where
  "replay_days missed_days_dates [] val missed_yesterday last_close_price =
     (val, last_close_price)"
| "replay_days missed_days_dates (d # reader) val missed_yesterday last_close_price =
     (let val1 = (if missed_yesterday \<and> day_date d \<notin> missed_days_dates
                  then val - day_open d else val);
          val2 = (if day_date d \<in> missed_days_dates then val1 + last_close_price else val1)
      in replay_days missed_days_dates reader val2 (day_date d \<in> missed_days_dates)
           (day_close d))"

text \<open>
  \<^verbatim>\<open>perf_if_missing_days\<close>, lines 71-105. The function prints its two figures; the
  model returns them, unformatted: \<^verbatim>\<open>total_changed_percentage\<close> (holding throughout)
  first, \<^verbatim>\<open>changed_percentage_if_missing_days\<close> second.
\<close>

definition perf_if_missing_days :: "day list \<Rightarrow> DayPerf list \<Rightarrow> error + (real \<times> real)" where
  "perf_if_missing_days data_dict_reader missed_days =
     (case data_dict_reader of
        [] \<Rightarrow> Inl StopIteration
      | first_day # reader \<Rightarrow>
          (let open_price = day_open first_day;
               missed_days_dates = set (map date missed_days);
               (val, last_close_price) =
                  replay_days missed_days_dates reader 0 False (day_close first_day);
               val' = val + last_close_price
           in if open_price = 0 then Inl ZeroDivisionError
              else Inr ((last_close_price - open_price) / open_price,
                        (val' - open_price) / open_price)))"

subsection \<open>The selection rule in the spec's words\<close>

text \<open>
  The reference price of record \<open>i\<close> (counted from 0): the first record's own open for
  the first record and for the second, the preceding record's close from the third on.
\<close>

definition reference_price :: "day list \<Rightarrow> nat \<Rightarrow> real" where
  "reference_price series i =
     (if i \<le> 1 then day_open (series ! 0) else day_close (series ! (i - 1)))"

text \<open>The performance of record \<open>i\<close>: its date and its change against its reference price.\<close>

definition day_perf :: "day list \<Rightarrow> nat \<Rightarrow> DayPerf" where
  "day_perf series i =
     DayPerf (day_date (series ! i))
       ((day_close (series ! i) - reference_price series i) / reference_price series i)"

text \<open>
  The brute-force reference: the performances of all records, sorted in the mode's
  direction, cut to the first \<open>k\<close>.
\<close>

definition extreme_days :: "day list \<Rightarrow> nat \<Rightarrow> bool \<Rightarrow> DayPerf list" where
  "extreme_days series k find_best =
     take k (sort_days find_best (map (day_perf series) [0..<length series]))"

text \<open>Sorted in the mode's direction: descending for the best days, ascending for the worst.\<close>

definition in_mode_order :: "bool \<Rightarrow> DayPerf list \<Rightarrow> bool" where
  "in_mode_order find_best chosen_days =
     (if find_best then sorted (map (\<lambda>x. - change_percentage x) chosen_days)
      else sorted (map change_percentage chosen_days))"

subsection \<open>The ledger in the spec's words\<close>

text \<open>
  What the simulated trader receives for selling: over the pairs of a record and the
  record after it, the close of the former wherever the latter's date is missed. The
  first record is never the latter of a pair.
\<close>

definition sold :: "string set \<Rightarrow> day list \<Rightarrow> real" where
  "sold missed_dates series =
     sum_list (map (\<lambda>(prev, d). if day_date d \<in> missed_dates then day_close prev else 0)
       (zip series (tl series)))"

text \<open>
  What the trader pays for buying back: over the pairs of adjacent records after the first
  record, the open of the latter wherever the former's date is missed and the latter's
  is not. The first record is in no pair.
\<close>

definition rebought :: "string set \<Rightarrow> day list \<Rightarrow> real" where
  "rebought missed_dates series =
     sum_list (map (\<lambda>(prev, d).
         if day_date prev \<in> missed_dates \<and> day_date d \<notin> missed_dates then day_open d else 0)
       (zip (tl series) (tl (tl series))))"

section \<open>The selection\<close>

subsection \<open>The seed loop and the main loop against the reference prices\<close>

lemma reference_price_after:
  "pre \<noteq> [] \<Longrightarrow> reference_price (pre @ d # rest) (Suc (length pre)) = day_close d"
  by (cases pre) (simp_all add: reference_price_def nth_append)

lemma day_perf_at:
  "day_perf (pre @ d # rest) (length pre) =
     DayPerf (day_date d)
       ((day_close d - reference_price (pre @ d # rest) (length pre))
          / reference_price (pre @ d # rest) (length pre))"
  by (simp add: day_perf_def)

lemma fill_days_Inr:
  assumes "fill_days k rest last_closing_price chosen_days = Inr (rest', last', chosen')"
    and "series = pre @ rest" and "pre \<noteq> []"
    and "last_closing_price = reference_price series (length pre)"
  shows "k \<le> length rest \<and> rest' = drop k rest
       \<and> last' = reference_price series (length pre + k)
       \<and> chosen' = chosen_days @ map (day_perf series) [length pre..<length pre + k]"
  using assms
proof (induction k arbitrary: rest pre last_closing_price chosen_days)
  case 0
  then show ?case by auto
next
  case (Suc k)
  from Suc.prems(1) obtain d reader where rest: "rest = d # reader"
    by (cases rest) simp_all
  from Suc.prems(1) rest have nz: "last_closing_price \<noteq> 0"
    by (auto split: if_splits)
  let ?new = "DayPerf (day_date d) ((day_close d - last_closing_price) / last_closing_price)"
  from Suc.prems(1) rest nz
  have run: "fill_days k reader (day_close d) (chosen_days @ [?new]) = Inr (rest', last', chosen')"
    by simp
  have series: "series = (pre @ [d]) @ reader"
    using Suc.prems(2) rest by simp
  have ref: "day_close d = reference_price series (length (pre @ [d]))"
    using Suc.prems(2,3) rest by (simp add: reference_price_after)
  have new: "?new = day_perf series (length pre)"
    using Suc.prems(2,4) rest by (simp add: day_perf_at)
  from Suc.IH [OF run series _ ref]
  have IH: "k \<le> length reader \<and> rest' = drop k reader
       \<and> last' = reference_price series (length (pre @ [d]) + k)
       \<and> chosen' = (chosen_days @ [?new])
            @ map (day_perf series) [length (pre @ [d])..<length (pre @ [d]) + k]"
    by simp
  have "[length pre..<length pre + Suc k] = length pre # [Suc (length pre)..<Suc (length pre) + k]"
    by (simp add: upt_conv_Cons)
  with IH rest new show ?case
    by simp
qed

lemma fill_days_succeeds:
  assumes "k \<le> length rest" and "series = pre @ rest" and "pre \<noteq> []"
    and "last_closing_price = reference_price series (length pre)"
    and "\<forall>i<k. reference_price series (length pre + i) \<noteq> 0"
  shows "\<exists>res. fill_days k rest last_closing_price chosen_days = Inr res"
  using assms
proof (induction k arbitrary: rest pre last_closing_price chosen_days)
  case 0
  then show ?case by simp
next
  case (Suc k)
  then obtain d reader where rest: "rest = d # reader"
    by (cases rest) simp_all
  from Suc.prems(4,5) have nz: "last_closing_price \<noteq> 0"
    by auto
  have len: "k \<le> length reader"
    using Suc.prems(1) rest by simp
  have series: "series = (pre @ [d]) @ reader"
    using Suc.prems(2) rest by simp
  have ref: "day_close d = reference_price series (length (pre @ [d]))"
    using Suc.prems(2,3) rest by (simp add: reference_price_after)
  have later: "\<forall>i<k. reference_price series (length (pre @ [d]) + i) \<noteq> 0"
    using Suc.prems(5) by auto
  from Suc.IH [OF len series _ ref later] rest nz show ?case
    by simp
qed

lemma fill_days_zero:
  assumes "k \<le> length rest" and "series = pre @ rest" and "pre \<noteq> []"
    and "last_closing_price = reference_price series (length pre)"
    and "\<exists>i<k. reference_price series (length pre + i) = 0"
  shows "fill_days k rest last_closing_price chosen_days = Inl ZeroDivisionError"
  using assms
proof (induction k arbitrary: rest pre last_closing_price chosen_days)
  case 0
  then show ?case by simp
next
  case (Suc k)
  then obtain d reader where rest: "rest = d # reader"
    by (cases rest) simp_all
  show ?case
  proof (cases "last_closing_price = 0")
    case True
    with rest show ?thesis by simp
  next
    case False
    have len: "k \<le> length reader"
      using Suc.prems(1) rest by simp
    have series: "series = (pre @ [d]) @ reader"
      using Suc.prems(2) rest by simp
    have ref: "day_close d = reference_price series (length (pre @ [d]))"
      using Suc.prems(2,3) rest by (simp add: reference_price_after)
    from Suc.prems(5) obtain i where i: "i < Suc k"
      and z: "reference_price series (length pre + i) = 0"
      by blast
    from z False Suc.prems(4) have "i \<noteq> 0"
      by (metis add.right_neutral)
    then obtain j where j: "i = Suc j"
      by (cases i) simp_all
    with i z have "j < k" and "reference_price series (length (pre @ [d]) + j) = 0"
      by simp_all
    then have later: "\<exists>i<k. reference_price series (length (pre @ [d]) + i) = 0"
      by blast
    from Suc.IH [OF len series _ ref later] rest False show ?thesis
      by simp
  qed
qed


lemma offer_day_set:
  "offer_day find_best chosen_days d change = Inr chosen' \<Longrightarrow>
   set chosen' \<subseteq> insert (DayPerf d change) (set chosen_days)"
  by (auto simp: offer_day_def sort_days_def split: if_splits dest!: in_set_butlastD)

lemma offer_day_succeeds:
  "chosen_days \<noteq> [] \<Longrightarrow>
   \<exists>chosen'. offer_day find_best chosen_days d change = Inr chosen' \<and> chosen' \<noteq> []"
  by (cases chosen_days) (simp_all add: offer_day_def sort_days_def flip: length_greater_0_conv)

lemma scan_days_perfs:
  assumes "scan_days find_best rest last_closing_price chosen_days = Inr out"
    and "series = pre @ rest" and "pre \<noteq> []"
    and "last_closing_price = reference_price series (length pre)"
    and "set chosen_days \<subseteq> day_perf series ` {..<length series}"
  shows "set out \<subseteq> day_perf series ` {..<length series}"
  using assms
proof (induction rest arbitrary: pre last_closing_price chosen_days)
  case Nil
  then show ?case by simp
next
  case (Cons d reader)
  let ?change = "(day_close d - last_closing_price) / last_closing_price"
  from Cons.prems(1) have nz: "last_closing_price \<noteq> 0"
    by (auto split: if_splits)
  with Cons.prems(1) obtain chosen' where
    offer: "offer_day find_best chosen_days (day_date d) ?change = Inr chosen'"
    and run: "scan_days find_best reader (day_close d) chosen' = Inr out"
    by (auto split: sum.splits)
  have series: "series = (pre @ [d]) @ reader"
    using Cons.prems(2) by simp
  have ref: "day_close d = reference_price series (length (pre @ [d]))"
    using Cons.prems(2,3) by (simp add: reference_price_after)
  have "DayPerf (day_date d) ?change = day_perf series (length pre)"
    using Cons.prems(2,4) by (simp add: day_perf_at)
  moreover have "length pre < length series"
    using Cons.prems(2) by simp
  ultimately have "DayPerf (day_date d) ?change \<in> day_perf series ` {..<length series}"
    by blast
  with offer_day_set [OF offer] Cons.prems(5)
  have "set chosen' \<subseteq> day_perf series ` {..<length series}"
    by blast
  from Cons.IH [OF run series _ ref this] show ?case
    by simp
qed

lemma scan_days_succeeds:
  assumes "series = pre @ rest" and "pre \<noteq> []"
    and "last_closing_price = reference_price series (length pre)"
    and "chosen_days \<noteq> []"
    and "\<forall>i<length rest. reference_price series (length pre + i) \<noteq> 0"
  shows "\<exists>out. scan_days find_best rest last_closing_price chosen_days = Inr out"
  using assms
proof (induction rest arbitrary: pre last_closing_price chosen_days)
  case Nil
  then show ?case by simp
next
  case (Cons d reader)
  let ?change = "(day_close d - last_closing_price) / last_closing_price"
  from Cons.prems(3,5) have nz: "last_closing_price \<noteq> 0"
    by (metis add.right_neutral length_greater_0_conv list.discI)
  from offer_day_succeeds [OF Cons.prems(4)] obtain chosen' where
    offer: "offer_day find_best chosen_days (day_date d) ?change = Inr chosen'"
    and ne: "chosen' \<noteq> []"
    by blast
  have series: "series = (pre @ [d]) @ reader"
    using Cons.prems(1) by simp
  have ref: "day_close d = reference_price series (length (pre @ [d]))"
    using Cons.prems(1,2) by (simp add: reference_price_after)
  have later: "\<forall>i<length reader. reference_price series (length (pre @ [d]) + i) \<noteq> 0"
  proof (intro allI impI)
    fix i
    assume "i < length reader"
    then have "Suc i < length (d # reader)"
      by simp
    with Cons.prems(5) have "reference_price series (length pre + Suc i) \<noteq> 0"
      by blast
    then show "reference_price series (length (pre @ [d]) + i) \<noteq> 0"
      by simp
  qed
  from Cons.IH [OF series _ ref ne later] offer nz show ?case
    by simp
qed

lemma find_days_succeeds:
  assumes "0 < n" and "n \<le> int (length series)"
    and "\<forall>i<length series. reference_price series i \<noteq> 0"
  shows "\<exists>out. find_days series n find_best = Inr out"
proof -
  from assms(1,2) obtain first_day reader where series: "series = [first_day] @ reader"
    by (cases series) simp_all
  let ?k = "nat (n - 1)"
  let ?first = "DayPerf (day_date first_day)
      ((day_close first_day - day_open first_day) / day_open first_day)"
  from assms(3) series have open_nz: "day_open first_day \<noteq> 0"
    by (auto simp: reference_price_def)
  have k: "?k \<le> length reader"
    using assms(1,2) series by simp
  have ref: "day_open first_day = reference_price series (length [first_day])"
    using series by (simp add: reference_price_def)
  have later: "\<forall>i<?k. reference_price series (length [first_day] + i) \<noteq> 0"
  proof (intro allI impI)
    fix i
    assume "i < ?k"
    with k series have "length [first_day] + i < length series"
      by simp
    with assms(3) show "reference_price series (length [first_day] + i) \<noteq> 0"
      by blast
  qed
  from fill_days_succeeds [OF k series _ ref later, of "[?first]"]
  obtain rest' last' chosen' where
    fill: "fill_days ?k reader (day_open first_day) [?first] = Inr (rest', last', chosen')"
    by auto
  from fill_days_Inr [OF fill series _ ref]
  have rest': "rest' = drop ?k reader"
    and last': "last' = reference_price series (length [first_day] + ?k)"
    and chosen': "chosen' = ?first # map (day_perf series) [Suc 0..<Suc ?k]"
    by simp_all
  have series': "series = (first_day # take ?k reader) @ rest'"
    using series rest' by simp
  have last'': "last' = reference_price series (length (first_day # take ?k reader))"
    using last' k by simp
  have ne: "chosen' \<noteq> []"
    using chosen' by simp
  have rest_nz: "\<forall>i<length rest'.
      reference_price series (length (first_day # take ?k reader) + i) \<noteq> 0"
  proof (intro allI impI)
    fix i
    assume "i < length rest'"
    with k series rest' have "length (first_day # take ?k reader) + i < length series"
      by simp
    with assms(3)
    show "reference_price series (length (first_day # take ?k reader) + i) \<noteq> 0"
      by blast
  qed
  from scan_days_succeeds [OF series' _ last'' ne rest_nz]
  obtain out where "scan_days find_best rest' last' chosen' = Inr out"
    by blast
  with fill series open_nz assms(1) show ?thesis
    by (simp add: find_days_def)
qed

lemma find_days_whole_series:
  "find_days series (int (length series)) find_best =
     (if \<forall>i<length series. reference_price series i \<noteq> 0
      then Inr (map (day_perf series) [0..<length series])
      else Inl ZeroDivisionError)"
proof (cases series)
  case Nil
  then show ?thesis
    by (simp add: find_days_def)
next
  case (Cons first_day reader)
  then have series: "series = [first_day] @ reader"
    by simp
  let ?first = "DayPerf (day_date first_day)
      ((day_close first_day - day_open first_day) / day_open first_day)"
  have ref: "day_open first_day = reference_price series (length [first_day])"
    using series by (simp add: reference_price_def)
  have ref0: "reference_price series 0 = day_open first_day"
    using series by (simp add: reference_price_def)
  have first: "?first = day_perf series 0"
    using series by (simp add: day_perf_def reference_price_def)
  show ?thesis
  proof (cases "\<forall>i<length series. reference_price series i \<noteq> 0")
    case True
    with series ref0 have open_nz: "day_open first_day \<noteq> 0"
      by (metis length_greater_0_conv append_is_Nil_conv list.discI)
    have later: "\<forall>i<length reader. reference_price series (length [first_day] + i) \<noteq> 0"
      using True series by simp
    from fill_days_succeeds [OF le_refl series _ ref later, of "[?first]"]
    obtain rest' last' chosen' where
      fill: "fill_days (length reader) reader (day_open first_day) [?first]
               = Inr (rest', last', chosen')"
      by auto
    from fill_days_Inr [OF fill series _ ref]
    have "rest' = []"
      and "chosen' = ?first # map (day_perf series) [Suc 0..<Suc (length reader)]"
      by simp_all
    moreover have "[0..<Suc (length reader)] = 0 # [Suc 0..<Suc (length reader)]"
      by (rule upt_conv_Cons) simp
    ultimately have "rest' = []" and "chosen' = map (day_perf series) [0..<length series]"
      using first series by simp_all
    with fill series open_nz True show ?thesis
      by (simp add: find_days_def)
  next
    case False
    show ?thesis
    proof (cases "day_open first_day = 0")
      case True
      with False series show ?thesis
        by (simp add: find_days_def)
    next
      case open_nz: False
      from False obtain i where i: "i < length series" and z: "reference_price series i = 0"
        by blast
      from z open_nz ref0 have "i \<noteq> 0"
        by metis
      then obtain j where j: "i = Suc j"
        by (cases i) simp_all
      with i z series have "j < length reader"
        and "reference_price series (length [first_day] + j) = 0"
        by simp_all
      then have "\<exists>i<length reader. reference_price series (length [first_day] + i) = 0"
        by blast
      from fill_days_zero [OF le_refl series _ ref this, of "[?first]"]
      have "fill_days (length reader) reader (day_open first_day) [?first]
          = Inl ZeroDivisionError"
        by simp
      with False series open_nz show ?thesis
        by (simp add: find_days_def)
    qed
  qed
qed

lemma find_days_perfs:
  assumes "n \<noteq> 0" and "find_days series n find_best = Inr out" and "p \<in> set out"
  shows "\<exists>i<length series. p = day_perf series i"
proof -
  note n = assms(1) and a = assms(2) and p = assms(3)
  from n a obtain first_day reader where series: "series = [first_day] @ reader"
    by (cases series) (simp_all add: find_days_def)
  let ?first = "DayPerf (day_date first_day)
      ((day_close first_day - day_open first_day) / day_open first_day)"
  from n a series have open_nz: "day_open first_day \<noteq> 0"
    by (auto simp: find_days_def split: if_splits)
  with n a series obtain rest' last' chosen' where
    fill: "fill_days (nat (n - 1)) reader (day_open first_day) [?first]
             = Inr (rest', last', chosen')"
    and scan: "scan_days find_best rest' last' chosen' = Inr out"
    by (auto simp: find_days_def split: sum.splits)
  have ref: "day_open first_day = reference_price series (length [first_day])"
    using series by (simp add: reference_price_def)
  have first: "?first = day_perf series 0"
    using series by (simp add: day_perf_def reference_price_def)
  from fill_days_Inr [OF fill series _ ref]
  have k: "nat (n - 1) \<le> length reader" and rest': "rest' = drop (nat (n - 1)) reader"
    and last': "last' = reference_price series (length [first_day] + nat (n - 1))"
    and chosen': "chosen' = ?first # map (day_perf series) [Suc 0..<Suc (nat (n - 1))]"
    by simp_all
  have series': "series = (first_day # take (nat (n - 1)) reader) @ rest'"
    using series rest' by simp
  have last'': "last' = reference_price series (length (first_day # take (nat (n - 1)) reader))"
    using last' k by simp
  have "set chosen' \<subseteq> day_perf series ` {..<length series}"
    using chosen' first k series by auto
  from scan_days_perfs [OF scan series' _ last'' this] p
  show ?thesis
    by auto
qed

text \<open>
  C5. The changes \<^verbatim>\<open>find_days\<close> computes are the changes against the reference
  prices: the first record against its own open, the second against the first record's
  open (not its close), every later record against the close of the record before it.
  Asked for as many days as the series has, the function returns the performance of
  every record in series order, each computed that way, or raises ZeroDivisionError
  when one of those reference prices is zero. For any other non-zero \<open>n\<close> every entry it
  returns is the performance of some record computed that way, and it does return when
  the series has at least \<open>n\<close> records and no reference price is zero.
\<close>

theorem change_uses_running_reference:
  "find_days series (int (length series)) find_best =
     (if \<forall>i<length series. reference_price series i \<noteq> 0
      then Inr (map (day_perf series) [0..<length series])
      else Inl ZeroDivisionError)
   \<and> (\<forall>out. n \<noteq> 0 \<and> find_days series n find_best = Inr out \<longrightarrow>
         (\<forall>p\<in>set out. \<exists>i<length series. p = day_perf series i))
   \<and> (0 < n \<and> n \<le> int (length series)
        \<and> (\<forall>i<length series. reference_price series i \<noteq> 0) \<longrightarrow>
         (\<exists>out. find_days series n find_best = Inr out))"
proof (intro conjI impI allI ballI)
  show "find_days series (int (length series)) find_best =
     (if \<forall>i<length series. reference_price series i \<noteq> 0
      then Inr (map (day_perf series) [0..<length series])
      else Inl ZeroDivisionError)"
    by (rule find_days_whole_series)
next
  fix out p
  assume "n \<noteq> 0 \<and> find_days series n find_best = Inr out" and "p \<in> set out"
  then show "\<exists>i<length series. p = day_perf series i"
    by (metis find_days_perfs)
next
  assume "0 < n \<and> n \<le> int (length series)
      \<and> (\<forall>i<length series. reference_price series i \<noteq> 0)"
  then show "\<exists>out. find_days series n find_best = Inr out"
    by (simp add: find_days_succeeds)
qed

text \<open>
  The worked series of the spec: all three records asked for, and the single best day.
\<close>

theorem change_uses_running_reference_witness:
  "find_days [\<lparr>day_date = ''d1'', day_open = 100, day_close = 110\<rparr>,
      \<lparr>day_date = ''d2'', day_open = 110, day_close = 90\<rparr>,
      \<lparr>day_date = ''d3'', day_open = 90, day_close = 120\<rparr>] 3 True
     = Inr [DayPerf ''d1'' (1 / 10), DayPerf ''d2'' (- 1 / 10), DayPerf ''d3'' (1 / 3)]
   \<and> find_days [\<lparr>day_date = ''d1'', day_open = 100, day_close = 110\<rparr>,
      \<lparr>day_date = ''d2'', day_open = 110, day_close = 90\<rparr>,
      \<lparr>day_date = ''d3'', day_open = 90, day_close = 120\<rparr>] 1 True = Inr [DayPerf ''d3'' (1 / 3)]
   \<and> (\<exists>i<3. DayPerf ''d3'' (1 / 3) = day_perf [\<lparr>day_date = ''d1'', day_open = 100, day_close = 110\<rparr>,
      \<lparr>day_date = ''d2'', day_open = 110, day_close = 90\<rparr>,
      \<lparr>day_date = ''d3'', day_open = 90, day_close = 120\<rparr>] i)"
proof -
  have one: "find_days [\<lparr>day_date = ''d1'', day_open = 100, day_close = 110\<rparr>,
      \<lparr>day_date = ''d2'', day_open = 110, day_close = 90\<rparr>,
      \<lparr>day_date = ''d3'', day_open = 90, day_close = 120\<rparr>] 1 True = Inr [DayPerf ''d3'' (1 / 3)]"
    by (simp add: find_days_def offer_day_def sort_days_def)
  with change_uses_running_reference
    [of "[\<lparr>day_date = ''d1'', day_open = 100, day_close = 110\<rparr>,
          \<lparr>day_date = ''d2'', day_open = 110, day_close = 90\<rparr>,
          \<lparr>day_date = ''d3'', day_open = 90, day_close = 120\<rparr>]" True 1]
  show ?thesis
    by (simp add: day_perf_def reference_price_def numeral_3_eq_3 less_Suc_eq)
qed



subsection \<open>Length and dates of the result\<close>

lemma offer_day_length:
  "offer_day find_best chosen_days d change = Inr chosen' \<Longrightarrow>
   length chosen' = length chosen_days"
  by (auto simp: offer_day_def sort_days_def split: if_splits)

lemma scan_days_length:
  "scan_days find_best rest last_closing_price chosen_days = Inr out \<Longrightarrow>
   length out = length chosen_days"
proof (induction rest arbitrary: last_closing_price chosen_days)
  case Nil
  then show ?case by simp
next
  case (Cons d rest)
  then show ?case
    by (auto split: if_splits sum.splits dest: offer_day_length)
qed

lemma fill_days_length:
  "fill_days k rest last_closing_price chosen_days = Inr (rest', last', chosen') \<Longrightarrow>
   length chosen' = length chosen_days + k"
proof (induction k arbitrary: rest last_closing_price chosen_days)
  case 0
  then show ?case by auto
next
  case (Suc k)
  then show ?case
    by (cases rest) (auto split: if_splits)
qed

lemma find_days_length:
  assumes "0 < n" and "find_days series n find_best = Inr out"
  shows "int (length out) = n"
  using assms
  by (auto simp: find_days_def split: list.splits if_splits sum.splits
      dest!: fill_days_length scan_days_length)

lemma offer_day_dates:
  assumes "offer_day find_best chosen_days d change = Inr chosen'"
    and "distinct (map date chosen_days)" and "d \<notin> date ` set chosen_days"
  shows "distinct (map date chosen') \<and> date ` set chosen' \<subseteq> insert d (date ` set chosen_days)"
proof (cases "chosen' = chosen_days")
  case True
  with assms show ?thesis by auto
next
  case False
  let ?xs = "chosen_days @ [DayPerf d change]"
  from False assms(1) have c: "chosen' = butlast (sort_days find_best ?xs)"
    by (auto simp: offer_day_def split: if_splits)
  have s: "set (sort_days find_best ?xs) = set ?xs"
    and ds: "distinct (sort_days find_best ?xs) = distinct ?xs"
    by (simp_all add: sort_days_def)
  from assms(2,3) have "distinct (map date ?xs)" by auto
  then have dx: "distinct ?xs" and ix: "inj_on date (set ?xs)"
    by (simp_all only: distinct_map)
  have "distinct (map date (sort_days find_best ?xs))"
    unfolding distinct_map s ds using dx ix by (rule conjI)
  then have "distinct (butlast (map date (sort_days find_best ?xs)))"
    by (rule distinct_butlast)
  then have "distinct (map date chosen')"
    by (simp add: c map_butlast)
  moreover have "set chosen' \<subseteq> set ?xs"
    using s c by (auto dest: in_set_butlastD)
  ultimately show ?thesis by auto
qed

lemma scan_days_step:
  assumes "scan_days find_best (d # rest) last_closing_price chosen_days = Inr out"
  shows "\<exists>chosen'. offer_day find_best chosen_days (day_date d)
          ((day_close d - last_closing_price) / last_closing_price) = Inr chosen'
        \<and> scan_days find_best rest (day_close d) chosen' = Inr out"
proof (cases "offer_day find_best chosen_days (day_date d)
          ((day_close d - last_closing_price) / last_closing_price)")
  case (Inl e)
  with assms show ?thesis by (simp split: if_splits)
next
  case (Inr chosen')
  with assms show ?thesis by (simp split: if_splits)
qed

lemma scan_days_dates:
  assumes "scan_days find_best rest last_closing_price chosen_days = Inr out"
    and "distinct (map date chosen_days)" and "distinct (map day_date rest)"
    and "\<forall>p\<in>set chosen_days. \<forall>r\<in>set rest. date p \<noteq> day_date r"
  shows "distinct (map date out)"
  using assms
proof (induction rest arbitrary: last_closing_price chosen_days)
  case Nil
  then show ?case by simp
next
  case (Cons d rest)
  from scan_days_step [OF Cons.prems(1)] obtain chosen' where
    o: "offer_day find_best chosen_days (day_date d)
          ((day_close d - last_closing_price) / last_closing_price) = Inr chosen'"
    and r: "scan_days find_best rest (day_close d) chosen' = Inr out"
    by blast
  from Cons.prems(4) have "day_date d \<notin> date ` set chosen_days"
    by (metis imageE list.set_intros(1))
  from offer_day_dates [OF o Cons.prems(2) this]
  have d': "distinct (map date chosen')"
    and sub: "date ` set chosen' \<subseteq> insert (day_date d) (date ` set chosen_days)"
    by simp_all
  from Cons.prems(3) have dr: "distinct (map day_date rest)"
    and dn: "day_date d \<notin> day_date ` set rest"
    by simp_all
  from Cons.prems(4) have rest: "\<forall>p\<in>set chosen_days. \<forall>r\<in>set rest. date p \<noteq> day_date r"
    by (meson list.set_intros(2))
  have "\<forall>p\<in>set chosen'. \<forall>r\<in>set rest. date p \<noteq> day_date r"
  proof (intro ballI)
    fix p r
    assume p: "p \<in> set chosen'" and r: "r \<in> set rest"
    from p have "date p \<in> date ` set chosen'"
      by (rule imageI)
    with sub have "date p \<in> insert (day_date d) (date ` set chosen_days)"
      by (rule subsetD)
    then consider "date p = day_date d" | q where "q \<in> set chosen_days" "date p = date q"
      by (metis imageE insertE)
    then show "date p \<noteq> day_date r"
    proof cases
      case 1
      with dn r show ?thesis
        by (metis imageI)
    next
      case 2
      with rest r show ?thesis
        by metis
    qed
  qed
  with r d' dr show ?case
    by (rule Cons.IH)
qed

lemma fill_days_dates:
  assumes "fill_days k rest last_closing_price chosen_days = Inr (rest', last', chosen')"
  shows "map date chosen' = map date chosen_days @ map day_date (take k rest) \<and> rest' = drop k rest"
  using assms
proof (induction k arbitrary: rest last_closing_price chosen_days)
  case 0
  then show ?case by auto
next
  case (Suc k)
  then show ?case
    by (cases rest) (auto split: if_splits)
qed

lemma find_days_distinct_dates:
  assumes "distinct (map day_date series)" and "find_days series n find_best = Inr out"
  shows "distinct (map date out)"
proof (cases "n = 0")
  case True
  with assms(2) show ?thesis by (simp add: find_days_def)
next
  case False
  with assms(2) obtain first_day reader reader' last' chosen' where
    s: "series = first_day # reader"
    and f: "fill_days (nat (n - 1)) reader (day_open first_day)
          [DayPerf (day_date first_day)
             ((day_close first_day - day_open first_day) / day_open first_day)]
          = Inr (reader', last', chosen')"
    and r: "scan_days find_best reader' last' chosen' = Inr out"
    by (auto simp: find_days_def split: list.splits if_splits sum.splits)
  let ?k = "nat (n - 1)"
  from fill_days_dates [OF f] have
    c: "map date chosen' = day_date first_day # map day_date (take ?k reader)"
    and r': "reader' = drop ?k reader"
    by simp_all
  have "map day_date (take ?k reader) @ map day_date (drop ?k reader) = map day_date reader"
    by (metis append_take_drop_id map_append)
  then have "map date chosen' @ map day_date reader' = map day_date series"
    by (simp add: c r' s)
  with assms(1) have "distinct (map date chosen' @ map day_date reader')"
    by simp
  then have d1: "distinct (map date chosen')" and d2: "distinct (map day_date reader')"
    and d3: "set (map date chosen') \<inter> set (map day_date reader') = {}"
    by (simp_all only: distinct_append)
  have "\<forall>p\<in>set chosen'. \<forall>r\<in>set reader'. date p \<noteq> day_date r"
  proof (intro ballI)
    fix p r
    assume "p \<in> set chosen'" and "r \<in> set reader'"
    then have "date p \<in> set (map date chosen')" and "day_date r \<in> set (map day_date reader')"
      by simp_all
    with d3 show "date p \<noteq> day_date r"
      by (metis IntI empty_iff)
  qed
  with r d1 d2 show ?thesis
    by (rule scan_days_dates)
qed

subsection \<open>Ties with the last entry\<close>






subsection \<open>The seed is never sorted\<close>

text \<open>
  C1. Two best days of a three-day series with changes 1/10, 1/2 and 3/10. The seed is
  the first two days in series order, so the entry the third day is compared with is the
  second day's 1/2, not the last-ranked 1/10: the third day is skipped, and
  \<^verbatim>\<open>find_days\<close> returns the first and second day where the two largest changes are
  those of the second and third.
\<close>

theorem find_days_misses_better_day:
  "find_days
     [\<lparr>day_date = ''d1'', day_open = 100, day_close = 110\<rparr>,
      \<lparr>day_date = ''d2'', day_open = 110, day_close = 150\<rparr>,
      \<lparr>day_date = ''d3'', day_open = 150, day_close = 195\<rparr>] 2 True
     = Inr [DayPerf ''d1'' (1 / 10), DayPerf ''d2'' (1 / 2)]
   \<and> extreme_days
     [\<lparr>day_date = ''d1'', day_open = 100, day_close = 110\<rparr>,
      \<lparr>day_date = ''d2'', day_open = 110, day_close = 150\<rparr>,
      \<lparr>day_date = ''d3'', day_open = 150, day_close = 195\<rparr>] 2 True
     = [DayPerf ''d2'' (1 / 2), DayPerf ''d3'' (3 / 10)]"
  by (simp add: find_days_def offer_day_def sort_days_def extreme_days_def day_perf_def
      reference_price_def numeral_3_eq_3 numeral_2_eq_2)

text \<open>
  C4. Two worst days of a three-day series with changes -1/10, -1/2 and -2/5. Nothing is
  inserted after the seed, so no sort runs and the result is the seed in series order,
  which is not ascending.
\<close>

theorem find_days_result_unsorted:
  "find_days
     [\<lparr>day_date = ''d1'', day_open = 100, day_close = 90\<rparr>,
      \<lparr>day_date = ''d2'', day_open = 90, day_close = 50\<rparr>,
      \<lparr>day_date = ''d3'', day_open = 50, day_close = 30\<rparr>] 2 False
     = Inr [DayPerf ''d1'' (- 1 / 10), DayPerf ''d2'' (- 1 / 2)]
   \<and> \<not> in_mode_order False [DayPerf ''d1'' (- 1 / 10), DayPerf ''d2'' (- 1 / 2)]"
  by (simp add: find_days_def offer_day_def in_mode_order_def)

section \<open>The simulation\<close>

subsection \<open>No missed day\<close>

lemma replay_days_none_missed:
  "replay_days {} reader val False last_close_price =
     (val, if reader = [] then last_close_price else day_close (last reader))"
  by (induction reader arbitrary: last_close_price) simp_all

text \<open>
  C6. With no missed day the two fractions that \<^verbatim>\<open>perf_if_missing_days\<close> reports are
  the same number: on every series that has a first record with a non-zero open (on any
  other the function raises before it reports anything) both are the gain from the first
  open to the last close, relative to the first open.
\<close>

theorem empty_missed_same_fraction:
  assumes "data_dict_reader \<noteq> []" and "day_open (hd data_dict_reader) \<noteq> 0"
  shows "perf_if_missing_days data_dict_reader [] =
           Inr ((day_close (last data_dict_reader) - day_open (hd data_dict_reader))
                   / day_open (hd data_dict_reader),
                (day_close (last data_dict_reader) - day_open (hd data_dict_reader))
                   / day_open (hd data_dict_reader))"
proof (cases data_dict_reader)
  case Nil
  with assms show ?thesis by simp
next
  case (Cons first_day reader)
  with assms(2) show ?thesis
    by (simp add: perf_if_missing_days_def replay_days_none_missed Let_def)
qed

theorem empty_missed_same_fraction_witness:
  "perf_if_missing_days
     [\<lparr>day_date = ''d1'', day_open = 100, day_close = 110\<rparr>,
      \<lparr>day_date = ''d2'', day_open = 110, day_close = 90\<rparr>,
      \<lparr>day_date = ''d3'', day_open = 90, day_close = 120\<rparr>] [] = Inr (1 / 5, 1 / 5)"
  using empty_missed_same_fraction
    [of "[\<lparr>day_date = ''d1'', day_open = 100, day_close = 110\<rparr>,
          \<lparr>day_date = ''d2'', day_open = 110, day_close = 90\<rparr>,
          \<lparr>day_date = ''d3'', day_open = 90, day_close = 120\<rparr>]"]
  by simp

subsection \<open>The loop as a ledger\<close>

lemma replay_days_ledger:
  "replay_days D rest val missed_yesterday last_close_price =
     (val
      + sum_list (map (\<lambda>(c, d). if day_date d \<in> D then c else 0)
          (zip (last_close_price # map day_close rest) rest))
      - sum_list (map (\<lambda>(m, d). if m \<and> day_date d \<notin> D then day_open d else 0)
          (zip (missed_yesterday # map (\<lambda>d. day_date d \<in> D) rest) rest)),
      last (last_close_price # map day_close rest))"
  by (induction rest arbitrary: val missed_yesterday last_close_price) simp_all

lemma sold_Cons:
  "sold D (first_day # reader) =
     sum_list (map (\<lambda>(c, d). if day_date d \<in> D then c else 0)
       (zip (day_close first_day # map day_close reader) reader))"
proof -
  have "zip (day_close first_day # map day_close reader) reader
      = map (\<lambda>(prev, d). (day_close prev, d)) (zip (first_day # reader) reader)"
    using zip_map1 [of day_close "first_day # reader" reader] by simp
  then show ?thesis
    by (simp add: sold_def o_def split_def cong: if_cong)
qed

lemma rebought_Cons:
  "rebought D (first_day # reader) =
     sum_list (map (\<lambda>(m, d). if m \<and> day_date d \<notin> D then day_open d else 0)
       (zip (False # map (\<lambda>d. day_date d \<in> D) reader) reader))"
proof (cases reader)
  case Nil
  then show ?thesis by (simp add: rebought_def)
next
  case (Cons d rest)
  have "zip (map (\<lambda>d. day_date d \<in> D) (d # rest)) rest
      = map (\<lambda>(prev, d). (day_date prev \<in> D, d)) (zip (d # rest) rest)"
    by (rule zip_map1)
  with Cons show ?thesis
    by (simp add: rebought_def o_def split_def cong: if_cong)
qed

lemma perf_if_missing_days_ledger:
  "perf_if_missing_days (first_day # reader) missed_days =
     (if day_open first_day = 0 then Inl ZeroDivisionError
      else Inr ((day_close (last (first_day # reader)) - day_open first_day) / day_open first_day,
                (sold (set (map date missed_days)) (first_day # reader)
                 - rebought (set (map date missed_days)) (first_day # reader)
                 + day_close (last (first_day # reader)) - day_open first_day)
                / day_open first_day))"
proof -
  have "last (day_close first_day # map day_close reader) = day_close (last (first_day # reader))"
    using last_map [of "first_day # reader" day_close] by simp
  then show ?thesis
    by (simp add: perf_if_missing_days_def replay_days_ledger sold_Cons rebought_Cons Let_def
        del: last.simps)
qed

lemma sold_cong_dates:
  assumes "\<forall>d\<in>set (tl series). (day_date d \<in> D) = (day_date d \<in> D')"
  shows "sold D series = sold D' series"
  unfolding sold_def
proof (rule arg_cong [where f = sum_list], rule map_cong [OF refl])
  fix x
  assume x: "x \<in> set (zip series (tl series))"
  obtain prev d where p: "x = (prev, d)"
    by (cases x)
  with x have "d \<in> set (tl series)"
    by (metis set_zip_rightD)
  with assms have "(day_date d \<in> D) = (day_date d \<in> D')"
    by blast
  with p show "(case x of (prev, d) \<Rightarrow> if day_date d \<in> D then day_close prev else 0)
      = (case x of (prev, d) \<Rightarrow> if day_date d \<in> D' then day_close prev else 0)"
    by simp
qed

lemma rebought_cong_dates:
  assumes "\<forall>d\<in>set (tl series). (day_date d \<in> D) = (day_date d \<in> D')"
  shows "rebought D series = rebought D' series"
  unfolding rebought_def
proof (rule arg_cong [where f = sum_list], rule map_cong [OF refl])
  fix x
  assume x: "x \<in> set (zip (tl series) (tl (tl series)))"
  obtain prev d where p: "x = (prev, d)"
    by (cases x)
  with x have "prev \<in> set (tl series)" and "d \<in> set (tl (tl series))"
    by (metis set_zip_leftD, metis set_zip_rightD)
  then have "prev \<in> set (tl series)" and "d \<in> set (tl series)"
    by (simp, metis list.sel(2) list.set_sel(2))
  with assms have "(day_date prev \<in> D) = (day_date prev \<in> D')"
    and "(day_date d \<in> D) = (day_date d \<in> D')"
    by blast+
  with p show "(case x of (prev, d) \<Rightarrow>
        if day_date prev \<in> D \<and> day_date d \<notin> D then day_open d else 0)
      = (case x of (prev, d) \<Rightarrow>
        if day_date prev \<in> D' \<and> day_date d \<notin> D' then day_open d else 0)"
    by simp
qed

text \<open>
  C10, amended to series whose first date does not occur again among the later records.
  On such a series the result for a list of missed days is the result for any list with
  the same dates less the first record's date, and it is this: ZeroDivisionError if the
  first open is zero, otherwise the two fractions of a position opened at the first
  record's open, where the sells and re-buys are those of the pairs of records described
  by \<^const>\<open>sold\<close> and \<^const>\<open>rebought\<close> for the dates less the first record's date. The
  first record's date is the date of no record tested there, so the first record triggers
  neither a sell nor a re-buy.
\<close>

theorem first_date_never_tested:
  assumes "day_date first_day \<notin> day_date ` set reader"
    and "set (map date missed_days') = set (map date missed_days) - {day_date first_day}"
  shows "perf_if_missing_days (first_day # reader) missed_days
           = perf_if_missing_days (first_day # reader) missed_days'
       \<and> perf_if_missing_days (first_day # reader) missed_days =
           (if day_open first_day = 0 then Inl ZeroDivisionError
            else Inr ((day_close (last (first_day # reader)) - day_open first_day)
                        / day_open first_day,
                      (sold (set (map date missed_days) - {day_date first_day})
                           (first_day # reader)
                       - rebought (set (map date missed_days) - {day_date first_day})
                           (first_day # reader)
                       + day_close (last (first_day # reader)) - day_open first_day)
                      / day_open first_day))"
proof -
  let ?D = "set (map date missed_days)"
  let ?D' = "?D - {day_date first_day}"
  have "\<forall>d\<in>set (tl (first_day # reader)). (day_date d \<in> ?D) = (day_date d \<in> ?D')"
  proof
    fix d
    assume "d \<in> set (tl (first_day # reader))"
    then have "day_date d \<in> day_date ` set reader"
      by simp
    with assms(1) have "day_date d \<noteq> day_date first_day"
      by metis
    then show "(day_date d \<in> ?D) = (day_date d \<in> ?D')"
      by simp
  qed
  then have "sold ?D (first_day # reader) = sold ?D' (first_day # reader)"
    and "rebought ?D (first_day # reader) = rebought ?D' (first_day # reader)"
    by (rule sold_cong_dates, rule rebought_cong_dates)
  then show ?thesis
    by (simp only: perf_if_missing_days_ledger assms(2) simp_thms)
qed

theorem first_date_never_tested_witness:
  "perf_if_missing_days [\<lparr>day_date = ''d1'', day_open = 100, day_close = 110\<rparr>,
      \<lparr>day_date = ''d2'', day_open = 110, day_close = 90\<rparr>,
      \<lparr>day_date = ''d3'', day_open = 90, day_close = 120\<rparr>]
     [DayPerf ''d1'' (1 / 10), DayPerf ''d2'' (- 1 / 10)]
     = perf_if_missing_days [\<lparr>day_date = ''d1'', day_open = 100, day_close = 110\<rparr>,
      \<lparr>day_date = ''d2'', day_open = 110, day_close = 90\<rparr>,
      \<lparr>day_date = ''d3'', day_open = 90, day_close = 120\<rparr>]
     [DayPerf ''d2'' (- 1 / 10)]
   \<and> perf_if_missing_days [\<lparr>day_date = ''d1'', day_open = 100, day_close = 110\<rparr>,
      \<lparr>day_date = ''d2'', day_open = 110, day_close = 90\<rparr>,
      \<lparr>day_date = ''d3'', day_open = 90, day_close = 120\<rparr>]
     [DayPerf ''d1'' (1 / 10), DayPerf ''d2'' (- 1 / 10)] = Inr (1 / 5, 2 / 5)"
  using first_date_never_tested
    [of "\<lparr>day_date = ''d1'', day_open = 100, day_close = 110\<rparr>"
        "[\<lparr>day_date = ''d2'', day_open = 110, day_close = 90\<rparr>,
          \<lparr>day_date = ''d3'', day_open = 90, day_close = 120\<rparr>]"
        "[DayPerf ''d2'' (- 1 / 10)]"
        "[DayPerf ''d1'' (1 / 10), DayPerf ''d2'' (- 1 / 10)]"]
  by (auto simp: sold_def rebought_def)

text \<open>
  Without the condition the statement fails: when the third record carries the first
  record's date, missing that date sells at 90 and buys back at 120, and the second
  fraction is 0 where it is 3/10 with nothing missed.
\<close>

theorem first_date_repeated_counterexample:
  "perf_if_missing_days [\<lparr>day_date = ''d1'', day_open = 100, day_close = 110\<rparr>,
      \<lparr>day_date = ''d2'', day_open = 110, day_close = 90\<rparr>,
      \<lparr>day_date = ''d1'', day_open = 90, day_close = 120\<rparr>,
      \<lparr>day_date = ''d4'', day_open = 120, day_close = 130\<rparr>]
     [DayPerf ''d1'' (1 / 10)] = Inr (3 / 10, 0)
   \<and> perf_if_missing_days [\<lparr>day_date = ''d1'', day_open = 100, day_close = 110\<rparr>,
      \<lparr>day_date = ''d2'', day_open = 110, day_close = 90\<rparr>,
      \<lparr>day_date = ''d1'', day_open = 90, day_close = 120\<rparr>,
      \<lparr>day_date = ''d4'', day_open = 120, day_close = 130\<rparr>]
     [] = Inr (3 / 10, 3 / 10)
   \<and> perf_if_missing_days [\<lparr>day_date = ''d1'', day_open = 100, day_close = 110\<rparr>,
      \<lparr>day_date = ''d2'', day_open = 110, day_close = 90\<rparr>,
      \<lparr>day_date = ''d1'', day_open = 90, day_close = 120\<rparr>,
      \<lparr>day_date = ''d4'', day_open = 120, day_close = 130\<rparr>]
     [DayPerf ''d1'' (1 / 10)]
     \<noteq> perf_if_missing_days [\<lparr>day_date = ''d1'', day_open = 100, day_close = 110\<rparr>,
      \<lparr>day_date = ''d2'', day_open = 110, day_close = 90\<rparr>,
      \<lparr>day_date = ''d1'', day_open = 90, day_close = 120\<rparr>,
      \<lparr>day_date = ''d4'', day_open = 120, day_close = 130\<rparr>]
     []"
  by (simp add: perf_if_missing_days_def)

subsection \<open>Runs of missed days and a missed last day\<close>

text \<open>
  C2. A four-day series with the second and third day missed. The loop adds a sell on
  each of the two missed days, the first record's close 110 and then the second
  record's close 125, and subtracts the fourth day's open 150 once: \<^verbatim>\<open>value\<close> is
  110 + 125 - 150 after the loop, and the second fraction is 31/20. With the run sold once
  \<^verbatim>\<open>value\<close> would be 110 - 150 and the fraction 3/10.
\<close>

theorem consecutive_missed_days_sell_twice:
  "replay_days {''d2'', ''d3''}
     [\<lparr>day_date = ''d2'', day_open = 110, day_close = 125\<rparr>,
      \<lparr>day_date = ''d3'', day_open = 125, day_close = 140\<rparr>,
      \<lparr>day_date = ''d4'', day_open = 150, day_close = 170\<rparr>] 0 False 110
     = (110 + 125 - 150, 170)
   \<and> perf_if_missing_days
     [\<lparr>day_date = ''d1'', day_open = 100, day_close = 110\<rparr>,
      \<lparr>day_date = ''d2'', day_open = 110, day_close = 125\<rparr>,
      \<lparr>day_date = ''d3'', day_open = 125, day_close = 140\<rparr>,
      \<lparr>day_date = ''d4'', day_open = 150, day_close = 170\<rparr>]
     [DayPerf ''d2'' 0, DayPerf ''d3'' 0]
     = Inr (7 / 10, 31 / 20)"
  by (simp add: perf_if_missing_days_def)

text \<open>
  C3. The worked series of the spec with its last day missed. The loop sells at the
  second record's close, 90, and line 96 then adds the last close, 120, all the same:
  the second fraction is 11/10 where a trader out of the position on the last day ends
  with 90, a fraction of -1/10.
\<close>

theorem last_day_missed_adds_last_close:
  "replay_days {''d3''}
     [\<lparr>day_date = ''d2'', day_open = 110, day_close = 90\<rparr>,
      \<lparr>day_date = ''d3'', day_open = 90, day_close = 120\<rparr>] 0 False 110
     = (90, 120)
   \<and> perf_if_missing_days
     [\<lparr>day_date = ''d1'', day_open = 100, day_close = 110\<rparr>,
      \<lparr>day_date = ''d2'', day_open = 110, day_close = 90\<rparr>,
      \<lparr>day_date = ''d3'', day_open = 90, day_close = 120\<rparr>]
     [DayPerf ''d3'' (1 / 3)]
     = Inr (1 / 5, 11 / 10)"
  by (simp add: perf_if_missing_days_def)

section \<open>The header\<close>

text \<open>
  What \<^verbatim>\<open>validate_header\<close> does with the header row that \<^verbatim>\<open>csv.DictReader\<close> builds
  from the cells of the first line: a line of as many cells as there are field names is
  accepted when the lower-cased cells are the field names in order, and is a ValueError
  otherwise; a shorter line is a ValueError when a cell it has is wrong, and an
  AttributeError, from \<^verbatim>\<open>None.lower()\<close>, when its cells are right as far as they go.
\<close>

lemma zip_take_left: "zip xs ys = zip (take (length ys) xs) ys"
proof (induction ys arbitrary: xs)
  case Nil
  then show ?case by simp
next
  case (Cons y ys)
  then show ?case by (cases xs) simp_all
qed

lemma validate_header_append:
  "length names = length row \<Longrightarrow>
   validate_header (zip (map Some names) (map Str row) @ items) =
     (if map lower row = names then validate_header items else Inl ValueError)"
  by (induction names row rule: list_induct2) auto

lemma validate_header_full_row:
  assumes "length row = length fieldnames"
  shows "validate_header (dict_reader_row fieldnames row) =
           (if map lower row = fieldnames then Inr () else Inl ValueError)"
  using validate_header_append [of fieldnames row "[]"] assms
  by (simp add: dict_reader_row_def)

lemma validate_header_short_row:
  assumes "length row < length fieldnames"
  shows "validate_header (dict_reader_row fieldnames row) =
           (if map lower row = take (length row) fieldnames then Inl AttributeError
            else Inl ValueError)"
proof -
  have "zip (map Some fieldnames) (map Str row)
      = zip (map Some (take (length row) fieldnames)) (map Str row)"
    using zip_take_left [of "map Some fieldnames" "map Str row"] by (simp add: take_map)
  moreover obtain key rest where "drop (length row) fieldnames = key # rest"
    using assms by (cases "drop (length row) fieldnames") simp_all
  ultimately show ?thesis
    using assms validate_header_append [of "take (length row) fieldnames" row]
    by (simp add: dict_reader_row_def)
qed

text \<open>
  A row that lacks the key of the last column altogether passes: the loop runs over the
  keys the row has.
\<close>

lemma validate_header_key_missing:
  "validate_header
     [(Some ''date'', Str ''Date''), (Some ''open'', Str ''Open''), (Some ''high'', Str ''High''),
      (Some ''low'', Str ''Low''), (Some ''close'', Str ''Close''),
      (Some ''adj close'', Str ''Adj Close'')] = Inr ()"
  by (simp add: lower_def lower_char_def)

text \<open>
  C9. A header line with the last column, Volume, missing. The six cells match their
  field names, the seventh field is paired with \<^verbatim>\<open>None\<close>, and \<^verbatim>\<open>actual_name.lower()\<close>
  raises AttributeError: not the ValueError that the function raises for a header it
  rejects.
\<close>

theorem short_header_attribute_error:
  "validate_header (dict_reader_row CSV_FIELD_NAMES
     [''Date'', ''Open'', ''High'', ''Low'', ''Close'', ''Adj Close'']) = Inl AttributeError"
  by (simp add: dict_reader_row_def CSV_FIELD_NAMES_def lower_def lower_char_def)

end
